theory Spec2Isabelle
  imports Main "HOL-Library.Word" "HOL-Library.List_Lexorder" "HOL-Library.Multiset"
    "HOL-Library.Sublist"
begin

section \<open>JavaScript strings\<close>

text \<open>
  A JavaScript string is a sequence of 16-bit code units. String comparison with \<open><\<close>
  is lexicographic on code units, a proper prefix being smaller; this is the order that
  the theory \<open>List_Lexorder\<close> of the library puts on lists.
\<close>

type_synonym jschar = "16 word"
type_synonym jsstring = "jschar list"

text \<open>String literals of the source, written as Isabelle strings.\<close>

definition js :: "string \<Rightarrow> jsstring" where
  "js s = map of_char s"

definition plus :: jschar where "plus = 0x2B"
definition zero :: jschar where "zero = 0x30"
definition nbsp :: jschar where "nbsp = 0xA0"
definition space :: jschar where "space = 0x20"

text \<open>The class \<open>\d\<close> (without the unicode flag): the ten ASCII digits.\<close>

definition is_digit :: "jschar \<Rightarrow> bool" where
  "is_digit c \<longleftrightarrow> 0x30 \<le> c \<and> c \<le> 0x39"

text \<open>
  The class \<open>\s\<close>: WhiteSpace and LineTerminator of ECMAScript. \<open>String.prototype.trim\<close>
  strips the same set of code units.
\<close>

definition is_space :: "jschar \<Rightarrow> bool" where
  "is_space c \<longleftrightarrow>
     c = 0x09 \<or> c = 0x0A \<or> c = 0x0B \<or> c = 0x0C \<or> c = 0x0D \<or> c = 0x20 \<or> c = 0xA0 \<or>
     c = 0x1680 \<or> (0x2000 \<le> c \<and> c \<le> 0x200A) \<or> c = 0x2028 \<or> c = 0x2029 \<or>
     c = 0x202F \<or> c = 0x205F \<or> c = 0x3000 \<or> c = 0xFEFF"

text \<open>The class \<open>[\n,;\t]\<close> of the split pattern.\<close>

definition is_delim :: "jschar \<Rightarrow> bool" where
  "is_delim c \<longleftrightarrow> c = 0x0A \<or> c = 0x2C \<or> c = 0x3B \<or> c = 0x09"

text \<open>The class \<open>[\d\s\-()]\<close> of the embedded-number pattern.\<close>

definition in_class :: "jschar \<Rightarrow> bool" where
  "in_class c \<longleftrightarrow> is_digit c \<or> is_space c \<or> c = 0x2D \<or> c = 0x28 \<or> c = 0x29"

text \<open>\<open>s.trim()\<close>\<close>

definition trim :: "jsstring \<Rightarrow> jsstring" where
  "trim s = rev (dropWhile is_space (rev (dropWhile is_space s)))"

text \<open>
  \<open>Array.from(new Set(xs))\<close>: a Set keeps its elements in insertion order and ignores
  the insertion of an element it already holds.
\<close>

fun set_add_all :: "'a list \<Rightarrow> 'a list \<Rightarrow> 'a list" where
  "set_add_all seen [] = seen"
| "set_add_all seen (x # xs) =
     (if x \<in> set seen then set_add_all seen xs else set_add_all (seen @ [x]) xs)"

definition array_from_set :: "'a list \<Rightarrow> 'a list" where
  "array_from_set xs = set_add_all [] xs"

section \<open>The tokenizer\<close>

text \<open>
  \<open>s.split(/[\n,;\t]+|\s{2,}/g)\<close>. At a position of the string the pattern matches the
  longest run of delimiters if there is one (the first alternative), otherwise a run of
  two or more white-space characters, taken whole. \<open>sep_len\<close> is the length of that
  match, 0 when there is none. The split walks the string: where the pattern matches it
  closes the current piece and resumes after the match, elsewhere it moves on by one
  code unit; the rest of the string is the last piece. The pattern never matches the
  empty string, so the empty input splits into one empty piece.
\<close>

definition sep_len :: "jsstring \<Rightarrow> nat" where
  "sep_len s =
     (let n1 = length (takeWhile is_delim s) in
      if 1 \<le> n1 then n1
      else let n2 = length (takeWhile is_space s) in
           if 2 \<le> n2 then n2 else 0)"

function split_sep :: "jsstring \<Rightarrow> jsstring \<Rightarrow> jsstring list" where
  "split_sep piece [] = [piece]"
| "split_sep piece (c # cs) =
     (if sep_len (c # cs) = 0 then split_sep (piece @ [c]) cs
      else piece # split_sep [] (drop (sep_len (c # cs)) (c # cs)))"
  by pat_completeness auto
termination
  by (relation "measure (\<lambda>(piece, s). length s)") auto

text \<open>
  \<open>/[+]?\d[\d\s\-()]{5,}\d/\<close> tried at the start of a string. The optional plus is
  taken when it is there (without it, \<open>\d\<close> would have to match the plus). After the
  first digit the greedy class takes its longest run and gives characters back until
  the last one given back is a digit, which \<open>\d\<close> then matches; at least five
  characters of the class must stay in front of that digit. \<open>embedded_at\<close> is the
  length of the match, if any.
\<close>

definition core_at :: "jsstring \<Rightarrow> nat option" where
  "core_at s =
     (case s of
        [] \<Rightarrow> None
      | d # r \<Rightarrow>
          if is_digit d then
            (let run = takeWhile in_class r;
                 body = rev (dropWhile (\<lambda>c. \<not> is_digit c) (rev run))
             in if 6 \<le> length body then Some (1 + length body) else None)
          else None)"

definition embedded_at :: "jsstring \<Rightarrow> nat option" where
  "embedded_at s =
     (case s of
        [] \<Rightarrow> None
      | c # r \<Rightarrow> if c = plus then map_option Suc (core_at r) else core_at s)"

text \<open>
  \<open>input.matchAll(...)\<close> with the global flag: the leftmost match, then the leftmost
  match after its end, and so on.
\<close>

function matchAll_embedded :: "jsstring \<Rightarrow> jsstring list" where
  "matchAll_embedded [] = []"
| "matchAll_embedded (c # cs) =
     (case embedded_at (c # cs) of
        None \<Rightarrow> matchAll_embedded cs
      | Some n \<Rightarrow> take n (c # cs) # matchAll_embedded (drop (n - 1) cs))"
  by pat_completeness auto
termination
  by (relation "measure length") auto

definition candidates :: "jsstring \<Rightarrow> jsstring list" where
  "candidates input =
     filter (\<lambda>s. s \<noteq> [])
       (map trim (split_sep [] (map (\<lambda>c. if c = nbsp then space else c) input)))"

definition embedded :: "jsstring \<Rightarrow> jsstring list" where
  "embedded input = map trim (matchAll_embedded input)"

definition tokenize :: "jsstring \<Rightarrow> jsstring list" where
  "tokenize input = array_from_set (candidates input @ embedded input)"

section \<open>The cleaner\<close>

definition cleanToken :: "jsstring \<Rightarrow> jsstring" where
  "cleanToken token =
     (let t = filter (\<lambda>c. is_digit c \<or> c = plus) token in
      if plus \<in> set t
      then plus # dropWhile (\<lambda>c. c = zero) (filter (\<lambda>c. c \<noteq> plus) t)
      else t)"

section \<open>The numbering-plan authority\<close>

text \<open>
  The library that parses and validates numbers is not part of the program; it is a
  parameter of the model. Each call of it either returns or throws (the calls stand
  inside a \<open>try\<close> block whose handler is empty). A parsed number is an object with the
  property \<open>number\<close> (its E.164 form), the methods \<open>isValid\<close>, \<open>formatInternational\<close> and
  \<open>formatNational\<close>, which take no argument and are therefore given by their outcome,
  and the optional property \<open>country\<close>.
\<close>

datatype 'a outcome = Returned 'a | Thrown

text \<open>
  The library's type \<open>CountryCode\<close> is a union of two-letter upper-case codes. No such
  code is the empty string, the string \<open>Unknown\<close>, an array index or the name of a
  property that objects inherit.
\<close>

datatype letter =
  LA | LB | LC | LD | LE | LF | LG | LH | LI | LJ | LK | LL | LM
  | LN | LO | LP | LQ | LR | LS | LT | LU | LV | LW | LX | LY | LZ

datatype CountryCode = CountryCode letter letter

primrec letter_unit :: "letter \<Rightarrow> jschar" where
  "letter_unit LA = 0x41" | "letter_unit LB = 0x42" | "letter_unit LC = 0x43"
| "letter_unit LD = 0x44" | "letter_unit LE = 0x45" | "letter_unit LF = 0x46"
| "letter_unit LG = 0x47" | "letter_unit LH = 0x48" | "letter_unit LI = 0x49"
| "letter_unit LJ = 0x4A" | "letter_unit LK = 0x4B" | "letter_unit LL = 0x4C"
| "letter_unit LM = 0x4D" | "letter_unit LN = 0x4E" | "letter_unit LO = 0x4F"
| "letter_unit LP = 0x50" | "letter_unit LQ = 0x51" | "letter_unit LR = 0x52"
| "letter_unit LS = 0x53" | "letter_unit LT = 0x54" | "letter_unit LU = 0x55"
| "letter_unit LV = 0x56" | "letter_unit LW = 0x57" | "letter_unit LX = 0x58"
| "letter_unit LY = 0x59" | "letter_unit LZ = 0x5A"

primrec code_string :: "CountryCode \<Rightarrow> jsstring" where
  "code_string (CountryCode a b) = [letter_unit a, letter_unit b]"

record phone =
  ph_number :: jsstring
  ph_isValid :: "bool outcome"
  ph_formatInternational :: "jsstring outcome"
  ph_formatNational :: "jsstring outcome"
  ph_country :: "CountryCode option"

record authority =
  parsePhoneNumberFromString :: "jsstring \<Rightarrow> jsstring \<Rightarrow> phone option outcome"
  isValidNumberForRegion :: "jsstring \<Rightarrow> jsstring \<Rightarrow> bool outcome"

section \<open>Parsed rows\<close>

text \<open>
  The interface \<open>ParsedRow\<close>. An optional field that was never assigned is \<open>None\<close>. The
  field \<open>country\<close> is declared a string; the only value ever assigned to it is
  \<open>phone.country\<close>, a country code.
\<close>

record ParsedRow =
  raw :: jsstring
  cleaned :: jsstring
  valid :: bool
  e164 :: "jsstring option"
  international :: "jsstring option"
  national :: "jsstring option"
  country :: "CountryCode option"

text \<open>
  The body of \<open>tokens.map(tok => ...)\<close>. The variables start as \<open>false\<close> and
  \<open>undefined\<close>; a throw anywhere in the \<open>try\<close> block leaves them as they are at that
  moment, and the row is built from them. In \<open>a || b\<close> the method \<open>isValid\<close> is
  called only when the region check returned \<open>false\<close>.
\<close>

definition unparsed :: "jsstring \<Rightarrow> ParsedRow" where
  "unparsed tok =
     \<lparr>raw = tok, cleaned = cleanToken tok, valid = False, e164 = None,
      international = None, national = None, country = None\<rparr>"

definition populate :: "phone \<Rightarrow> ParsedRow \<Rightarrow> ParsedRow" where
  "populate ph r =
     (case ph_isValid ph of
        Thrown \<Rightarrow> r
      | Returned False \<Rightarrow> r
      | Returned True \<Rightarrow>
          (let r1 = r\<lparr>e164 := Some (ph_number ph)\<rparr> in
           case ph_formatInternational ph of
             Thrown \<Rightarrow> r1
           | Returned i \<Rightarrow>
               (let r2 = r1\<lparr>international := Some i\<rparr> in
                case ph_formatNational ph of
                  Thrown \<Rightarrow> r2
                | Returned n \<Rightarrow> r2\<lparr>national := Some n, country := ph_country ph\<rparr>)))"

definition parseRow :: "authority \<Rightarrow> jsstring \<Rightarrow> jsstring \<Rightarrow> ParsedRow" where
  "parseRow auth defaultCountry tok =
     (case parsePhoneNumberFromString auth (cleanToken tok) defaultCountry of
        Thrown \<Rightarrow> unparsed tok
      | Returned None \<Rightarrow> unparsed tok
      | Returned (Some ph) \<Rightarrow>
          (case isValidNumberForRegion auth (ph_number ph) defaultCountry of
             Thrown \<Rightarrow> unparsed tok
           | Returned inRegion \<Rightarrow>
               (case (if inRegion then Returned True else ph_isValid ph) of
                  Thrown \<Rightarrow> unparsed tok
                | Returned v \<Rightarrow> populate ph ((unparsed tok)\<lparr>valid := v\<rparr>))))"

section \<open>The pipeline\<close>

record config =
  defaultCountry :: jsstring
  onlyValid :: bool
  sortAsc :: bool

text \<open>An optional string is truthy when it is defined and not empty.\<close>

definition truthy :: "jsstring option \<Rightarrow> bool" where
  "truthy v = (case v of None \<Rightarrow> False | Some s \<Rightarrow> s \<noteq> [])"

text \<open>\<open>r.e164 || r.cleaned\<close>\<close>

definition dedupKey :: "ParsedRow \<Rightarrow> jsstring" where
  "dedupKey r = (case e164 r of None \<Rightarrow> cleaned r | Some s \<Rightarrow> if s \<noteq> [] then s else cleaned r)"

text \<open>The deduplication loop, with the set \<open>seen\<close> and the array \<open>dedup\<close> as its state.\<close>

fun dedup_loop :: "jsstring list \<Rightarrow> ParsedRow list \<Rightarrow> ParsedRow list \<Rightarrow> ParsedRow list" where
  "dedup_loop seen dedup [] = dedup"
| "dedup_loop seen dedup (r # rs) =
     (if dedupKey r \<notin> set seen then dedup_loop (seen @ [dedupKey r]) (dedup @ [r]) rs
      else dedup_loop seen dedup rs)"

definition deduplicate :: "ParsedRow list \<Rightarrow> ParsedRow list" where
  "deduplicate filtered = dedup_loop [] [] filtered"

text \<open>\<open>(r.e164 || r.cleaned).replace(/\D/g, "")\<close>\<close>

definition digitKey :: "ParsedRow \<Rightarrow> jsstring" where
  "digitKey r = filter is_digit (dedupKey r)"

text \<open>The comparison function handed to \<open>sort\<close>.\<close>

definition compareRows :: "bool \<Rightarrow> ParsedRow \<Rightarrow> ParsedRow \<Rightarrow> int" where
  "compareRows asc a b =
     (if digitKey a < digitKey b then - 1 else 1) * (if asc then 1 else - 1)"

definition parsed :: "authority \<Rightarrow> config \<Rightarrow> jsstring \<Rightarrow> ParsedRow list" where
  "parsed auth cfg rawText = map (parseRow auth (defaultCountry cfg)) (tokenize rawText)"

definition filtered :: "authority \<Rightarrow> config \<Rightarrow> jsstring \<Rightarrow> ParsedRow list" where
  "filtered auth cfg rawText =
     (if onlyValid cfg then filter (\<lambda>r. valid r \<and> truthy (e164 r)) (parsed auth cfg rawText)
      else parsed auth cfg rawText)"

text \<open>
  \<open>Array.prototype.sort\<close> belongs to the JavaScript engine, so the sorting routine is a
  parameter \<open>srt\<close> of the pipeline: it takes the comparison function and the array and
  returns the sorted array.
\<close>

type_synonym 'a array_sort = "('a \<Rightarrow> 'a \<Rightarrow> int) \<Rightarrow> 'a list \<Rightarrow> 'a list"

definition rows :: "ParsedRow array_sort \<Rightarrow> authority \<Rightarrow> config \<Rightarrow> jsstring \<Rightarrow> ParsedRow list" where
  "rows srt auth cfg rawText =
     srt (compareRows (sortAsc cfg)) (deduplicate (filtered auth cfg rawText))"

text \<open>
  The grouped view. The object \<open>map\<close> is the list of its entries in the order in which
  the keys were created, which is the order \<open>Object.entries\<close> lists them in (no key
  is an array index). A key that is present holds an array, which is truthy.
\<close>

definition groupKey :: "ParsedRow \<Rightarrow> jsstring" where
  "groupKey r = (case country r of None \<Rightarrow> js ''Unknown'' | Some c \<Rightarrow> code_string c)"

definition group_push :: "(jsstring \<times> ParsedRow list) list \<Rightarrow> ParsedRow \<Rightarrow> (jsstring \<times> ParsedRow list) list" where
  "group_push m r =
     (let c = groupKey r;
          m1 = (if map_of m c = None then m @ [(c, [])] else m)
      in map (\<lambda>(k, v). if k = c then (k, v @ [r]) else (k, v)) m1)"

definition grouped :: "ParsedRow list \<Rightarrow> (jsstring \<times> ParsedRow list) list" where
  "grouped rs = foldl group_push [] rs"

section \<open>What is assumed of the engine's sort\<close>

text \<open>
  The comparison function of the pipeline never returns 0, so it is not a consistent
  comparison function in the sense of ECMAScript, and the language leaves the order of the
  result to the engine. What is assumed of the engine is said in each theorem.
  \<open>rearranges\<close>: the result holds the elements of the array, each as often as the array
  does. \<open>honours\<close>: in a list, no element \<open>y\<close> stands behind an element \<open>x\<close> when the
  comparison function says so both ways round, that \<open>y\<close> goes before \<open>x\<close> and that \<open>x\<close>
  goes after \<open>y\<close>.
\<close>

definition rearranges :: "'a array_sort \<Rightarrow> ('a \<Rightarrow> 'a \<Rightarrow> int) \<Rightarrow> bool" where
  "rearranges srt cmp \<longleftrightarrow> (\<forall>xs. mset (srt cmp xs) = mset xs)"

definition honours :: "('a \<Rightarrow> 'a \<Rightarrow> int) \<Rightarrow> 'a list \<Rightarrow> bool" where
  "honours cmp ys \<longleftrightarrow> sorted_wrt (\<lambda>x y. \<not> (cmp y x < 0 \<and> 0 < cmp x y)) ys"

text \<open>
  A comparison sort learns the order of two elements only from the comparison function. An
  answer lets \<open>x\<close> stand before \<open>y\<close> when the call \<open>cmp x y\<close> is not positive or the call
  \<open>cmp y x\<close> is not negative. \<open>comparison_sort\<close>: whatever the comparison function, the
  result is a rearrangement of the array in which every element stands in front of its
  right neighbour by such an answer. This is a property of the procedure and not of one
  comparison function: it says nothing of elements that are not neighbours, and the
  insertion and merge procedures below have it for every comparison function, consistent
  or not.
\<close>

definition may_precede :: "('a \<Rightarrow> 'a \<Rightarrow> int) \<Rightarrow> 'a \<Rightarrow> 'a \<Rightarrow> bool" where
  "may_precede cmp x y \<longleftrightarrow> cmp x y \<le> 0 \<or> 0 \<le> cmp y x"

definition comparison_sort :: "'a array_sort \<Rightarrow> bool" where
  "comparison_sort srt \<longleftrightarrow>
     (\<forall>cmp xs. mset (srt cmp xs) = mset xs \<and> successively (may_precede cmp) (srt cmp xs))"

text \<open>
  Three engines. Insertion sort, each element put in front of the first element that
  the comparison function places it before. Insertion sort that calls the comparison
  function the other way round, with the element of the array first and the new element
  second, and puts the new element in front of the first element that is not placed
  before it. Merge sort, which takes an element of the right half only when the
  comparison function places it before the element of the left half.
\<close>

fun insert_by :: "('a \<Rightarrow> 'a \<Rightarrow> int) \<Rightarrow> 'a \<Rightarrow> 'a list \<Rightarrow> 'a list" where
  "insert_by cmp x [] = [x]"
| "insert_by cmp x (y # ys) = (if cmp x y < 0 then x # y # ys else y # insert_by cmp x ys)"

definition insertion_sort :: "'a array_sort" where
  "insertion_sort cmp xs = foldl (\<lambda>acc x. insert_by cmp x acc) [] xs"






section \<open>Shapes of embedded matches\<close>

text \<open>
  A string has the shape of an embedded number over a class of characters when, after an
  optional leading plus, it is a digit, five or more characters of the class, and a
  digit. \<open>claimed_class\<close> is the class with the ordinary space as its only white space.
\<close>

definition core_shaped :: "(jschar \<Rightarrow> bool) \<Rightarrow> jsstring \<Rightarrow> bool" where
  "core_shaped cls b \<longleftrightarrow>
     7 \<le> length b \<and> is_digit (hd b) \<and> is_digit (last b) \<and> list_all cls (butlast (tl b))"

definition shaped :: "(jschar \<Rightarrow> bool) \<Rightarrow> jsstring \<Rightarrow> bool" where
  "shaped cls m \<longleftrightarrow>
     core_shaped cls (case m of [] \<Rightarrow> [] | c # r \<Rightarrow> if c = plus then r else m)"

definition claimed_class :: "jschar \<Rightarrow> bool" where
  "claimed_class c \<longleftrightarrow> is_digit c \<or> c = space \<or> c = 0x2D \<or> c = 0x28 \<or> c = 0x29"

section \<open>Closed forms\<close>


definition group_label :: "CountryCode option \<Rightarrow> jsstring" where
  "group_label c = (case c of None \<Rightarrow> js ''Unknown'' | Some cc \<Rightarrow> code_string cc)"

definition groups_of :: "ParsedRow list \<Rightarrow> (jsstring \<times> ParsedRow list) list" where
  "groups_of rs =
     map (\<lambda>k. (k, filter (\<lambda>r. groupKey r = k) rs)) (array_from_set (map groupKey rs))"

section \<open>Authorities to run examples on\<close>

text \<open>
  \<open>example_config\<close> is a configuration with the default region \<open>NP\<close>.
  \<open>plus_authority\<close> accepts a string that starts with a plus as a valid number of Nepal
  whose E.164 form is the string itself, and cannot parse any other string.
  \<open>region_only_authority\<close> parses every string to a number that passes the check for the
  region and fails the general one. \<open>stateless_authority\<close> parses every string to a valid
  number for which it resolves no country. \<open>other_region_authority\<close> answers as
  \<open>plus_authority\<close> does for the region \<open>NP\<close> and throws for any other region.
\<close>

definition plus_phone :: "jsstring \<Rightarrow> phone" where
  "plus_phone s =
     \<lparr>ph_number = s, ph_isValid = Returned True, ph_formatInternational = Returned s,
      ph_formatNational = Returned (tl s), ph_country = Some (CountryCode LN LP)\<rparr>"

definition plus_authority :: authority where
  "plus_authority =
     \<lparr>parsePhoneNumberFromString =
        (\<lambda>s region. case s of [] \<Rightarrow> Returned None
           | c # r \<Rightarrow> if c = plus then Returned (Some (plus_phone s)) else Returned None),
      isValidNumberForRegion = (\<lambda>n region. Returned False)\<rparr>"

definition region_only_authority :: authority where
  "region_only_authority =
     \<lparr>parsePhoneNumberFromString =
        (\<lambda>s region. Returned (Some ((plus_phone s)\<lparr>ph_isValid := Returned False\<rparr>))),
      isValidNumberForRegion = (\<lambda>n region. Returned True)\<rparr>"

definition stateless_authority :: authority where
  "stateless_authority =
     \<lparr>parsePhoneNumberFromString =
        (\<lambda>s region. Returned (Some ((plus_phone s)\<lparr>ph_country := None\<rparr>))),
      isValidNumberForRegion = (\<lambda>n region. Returned False)\<rparr>"

definition other_region_authority :: authority where
  "other_region_authority =
     \<lparr>parsePhoneNumberFromString =
        (\<lambda>s region. if region = js ''NP'' then parsePhoneNumberFromString plus_authority s region
           else Thrown),
      isValidNumberForRegion =
        (\<lambda>n region. if region = js ''NP'' then Returned False else Thrown)\<rparr>"

definition example_config :: "bool \<Rightarrow> bool \<Rightarrow> config" where
  "example_config only asc = \<lparr>defaultCountry = js ''NP'', onlyValid = only, sortAsc = asc\<rparr>"

text \<open>
  \<open>regional_authority\<close> takes a string that starts with a plus as a valid number in E.164
  form, of the United States when a 1 follows the plus and of Nepal otherwise; it cannot
  parse a string that starts with a zero; any other string is a national number of Nepal,
  whose E.164 form is the string behind \<open>+977\<close>.
\<close>

definition regional_phone :: "jsstring \<Rightarrow> jsstring \<Rightarrow> CountryCode \<Rightarrow> phone" where
  "regional_phone n local cc =
     \<lparr>ph_number = n, ph_isValid = Returned True, ph_formatInternational = Returned n,
      ph_formatNational = Returned local, ph_country = Some cc\<rparr>"

definition regional_authority :: authority where
  "regional_authority =
     \<lparr>parsePhoneNumberFromString =
        (\<lambda>s region. case s of
             [] \<Rightarrow> Returned None
           | c # r \<Rightarrow>
               if c = plus then
                 Returned (Some (regional_phone s r
                   (case r of [] \<Rightarrow> CountryCode LN LP
                    | d # _ \<Rightarrow> if d = 0x31 then CountryCode LU LS else CountryCode LN LP)))
               else if c = zero then Returned None
               else Returned (Some (regional_phone (js ''+977'' @ s) s (CountryCode LN LP)))),
      isValidNumberForRegion = (\<lambda>n region. Returned False)\<rparr>"

section \<open>The cleaner's contract\<close>

lemma plus_not_digit: "\<not> is_digit plus"
  by (simp add: is_digit_def plus_def)

lemma keep_then_drop_plus:
  "filter (\<lambda>c. c \<noteq> plus) (filter (\<lambda>c. is_digit c \<or> c = plus) token) = filter is_digit token"
  by (induction token) (auto simp: plus_not_digit)

lemma keep_without_plus:
  "plus \<notin> set token \<Longrightarrow> filter (\<lambda>c. is_digit c \<or> c = plus) token = filter is_digit token"
  by (induction token) auto

lemma dropWhile_zero_head: "dropWhile (\<lambda>c. c = zero) ds = d # rest \<Longrightarrow> d \<noteq> zero"
  by (metis (mono_tags) hd_dropWhile list.distinct(1) list.sel(1))

text \<open>
  C6. The cleaner keeps the digits and the plus signs of the token. If the token has a
  plus, the result is one plus followed by the digits of the token without their leading
  zeros; if it has none, the result is the digits of the token, leading zeros included.
  So a cleaned token is a string of digits, or a plus followed by a string of digits that
  does not start with a zero.
\<close>

theorem cleanToken_contract:
  "(plus \<in> set token \<longrightarrow>
      cleanToken token = plus # dropWhile (\<lambda>c. c = zero) (filter is_digit token))
   \<and> (plus \<notin> set token \<longrightarrow> cleanToken token = filter is_digit token)
   \<and> (\<exists>ds. (\<forall>c \<in> set ds. is_digit c)
         \<and> (cleanToken token = ds
              \<or> cleanToken token = plus # ds \<and> (\<forall>d rest. ds = d # rest \<longrightarrow> d \<noteq> zero)))"
proof (cases "plus \<in> set token")
  case True
  then have eq: "cleanToken token = plus # dropWhile (\<lambda>c. c = zero) (filter is_digit token)"
    by (simp add: cleanToken_def keep_then_drop_plus del: filter_filter)
  have "\<forall>c \<in> set (dropWhile (\<lambda>c. c = zero) (filter is_digit token)). is_digit c"
    by (auto dest: set_dropWhileD)
  moreover have "\<forall>d rest. dropWhile (\<lambda>c. c = zero) (filter is_digit token) = d # rest \<longrightarrow> d \<noteq> zero"
    by (auto dest: dropWhile_zero_head)
  ultimately show ?thesis using True eq by blast
next
  case False
  then have eq: "cleanToken token = filter is_digit token"
    by (simp add: cleanToken_def keep_without_plus)
  have "\<forall>c \<in> set (filter is_digit token). is_digit c" by simp
  then show ?thesis using False eq by blast
qed

theorem cleanToken_contract_witness:
  "cleanToken (js ''+00 (44) 20+7'') = js ''+44207''
   \<and> cleanToken (js ''014-555-0134'') = js ''0145550134''"
  using cleanToken_contract [of "js ''+00 (44) 20+7''"]
    cleanToken_contract [of "js ''014-555-0134''"]
  by (simp add: js_def plus_def zero_def is_digit_def)

section \<open>Insertion order of a Set\<close>

text \<open>
  The array made from a Set lists each element once, at the place of its first
  occurrence: it is the list with the later duplicates removed.
\<close>

lemma set_add_all_append:
  "set_add_all seen (xs @ ys) = set_add_all (set_add_all seen xs) ys"
  by (induction xs arbitrary: seen) auto

lemma set_set_add_all: "set (set_add_all seen xs) = set seen \<union> set xs"
  by (induction xs arbitrary: seen) auto

lemma distinct_set_add_all: "distinct seen \<Longrightarrow> distinct (set_add_all seen xs)"
  by (induction xs arbitrary: seen) auto

lemma remdups_snoc: "remdups (ys @ [x]) = filter (\<lambda>y. y \<noteq> x) (remdups ys) @ [x]"
  by (induction ys) auto

lemma first_occurrences_Cons:
  "rev (remdups (rev (x # xs))) = x # filter (\<lambda>y. y \<noteq> x) (rev (remdups (rev xs)))"
  by (simp add: remdups_snoc rev_filter)

lemma set_add_all_eq:
  "set_add_all seen xs = seen @ filter (\<lambda>x. x \<notin> set seen) (rev (remdups (rev xs)))"
proof (induction xs arbitrary: seen)
  case Nil
  show ?case by simp
next
  case (Cons x xs)
  show ?case
  proof (cases "x \<in> set seen")
    case True
    then have "filter (\<lambda>y. y \<notin> set seen) (filter (\<lambda>y. y \<noteq> x) (rev (remdups (rev xs))))
        = filter (\<lambda>y. y \<notin> set seen) (rev (remdups (rev xs)))"
      by (auto intro: filter_cong)
    with True show ?thesis
      using Cons.IH [of seen] by (simp only: first_occurrences_Cons set_add_all.simps if_True filter.simps if_False not_True_eq_False)
  next
    case False
    have "filter (\<lambda>y. y \<notin> set (seen @ [x])) (rev (remdups (rev xs)))
        = filter (\<lambda>y. y \<notin> set seen) (filter (\<lambda>y. y \<noteq> x) (rev (remdups (rev xs))))"
      by (auto intro: filter_cong)
    with False show ?thesis
      using Cons.IH [of "seen @ [x]"] by (simp only: first_occurrences_Cons set_add_all.simps if_False filter.simps if_True not_False_eq_True append_assoc append.simps)
  qed
qed

lemma array_from_set_eq: "array_from_set xs = rev (remdups (rev xs))"
  by (simp add: array_from_set_def set_add_all_eq)

lemma array_from_set_snoc:
  "array_from_set (xs @ [x]) =
     (if x \<in> set xs then array_from_set xs else array_from_set xs @ [x])"
  by (simp add: array_from_set_def set_add_all_append set_set_add_all)

lemma set_array_from_set: "set (array_from_set xs) = set xs"
  by (simp add: array_from_set_def set_set_add_all)

lemma distinct_array_from_set: "distinct (array_from_set xs)"
  by (simp add: array_from_set_def distinct_set_add_all)

section \<open>The tokenizer's output\<close>

lemma digit_not_space: "is_digit c \<Longrightarrow> \<not> is_space c"
  unfolding is_digit_def is_space_def
  by (auto simp: word_le_nat_alt)

lemma plus_not_space: "\<not> is_space plus"
  by (simp add: is_space_def plus_def)

lemma rev_dropWhile_prefix:
  "rev (dropWhile P (rev xs)) @ rev (takeWhile P (rev xs)) = xs"
  by (metis rev_append rev_rev_ident takeWhile_dropWhile_id)

lemma take_body:
  assumes "run = takeWhile Q r" and "body = rev (dropWhile P (rev run))"
  shows "take (length body) r = body"
proof -
  have "r = run @ dropWhile Q r" using assms(1) by simp
  moreover have "run = body @ rev (takeWhile P (rev run))"
    using assms(2) by (simp add: rev_dropWhile_prefix)
  ultimately have "r = body @ (rev (takeWhile P (rev run)) @ dropWhile Q r)"
    by (metis append_assoc)
  then show ?thesis by (metis append_eq_conv_conj)
qed

lemma core_at_shaped:
  assumes "core_at s = Some n"
  shows "core_shaped in_class (take n s)"
proof -
  obtain d r where s: "s = d # r" and d: "is_digit d"
    using assms by (auto simp: core_at_def split: list.splits if_splits)
  define run where "run = takeWhile in_class r"
  define body where "body = rev (dropWhile (\<lambda>c. \<not> is_digit c) (rev run))"
  have len: "6 \<le> length body" and n: "n = 1 + length body"
    using assms s d by (auto simp: core_at_def run_def body_def Let_def split: if_splits)
  have tk: "take n s = d # body"
    using take_body [OF run_def body_def] by (simp add: s n)
  have bne: "body \<noteq> []" using len by auto
  then have ne: "dropWhile (\<lambda>c. \<not> is_digit c) (rev run) \<noteq> []"
    by (simp add: body_def)
  have "last body = hd (dropWhile (\<lambda>c. \<not> is_digit c) (rev run))"
    using ne by (simp add: body_def last_rev)
  then have lst: "is_digit (last body)"
    using ne hd_dropWhile [of "\<lambda>c. \<not> is_digit c" "rev run"] by simp
  have "set body \<subseteq> set run"
    by (auto simp: body_def dest: set_dropWhileD)
  moreover have "\<forall>c \<in> set run. in_class c"
    by (auto simp: run_def dest: set_takeWhileD)
  ultimately have "\<forall>c \<in> set (butlast body). in_class c"
    by (meson in_set_butlastD subsetD)
  then show ?thesis
    using d len lst bne by (simp add: tk core_shaped_def list_all_iff)
qed

lemma core_shaped_not_plus: "core_shaped in_class b \<Longrightarrow> hd b \<noteq> plus \<and> b \<noteq> []"
  by (auto simp: core_shaped_def plus_not_digit)

lemma embedded_at_shape:
  assumes "embedded_at s = Some n"
  shows "shaped in_class (take n s)"
proof -
  obtain c r where s: "s = c # r"
    using assms by (cases s) (auto simp: embedded_at_def)
  show ?thesis
  proof (cases "c = plus")
    case True
    then obtain k where k: "core_at r = Some k" and n: "n = Suc k"
      using assms s by (auto simp: embedded_at_def)
    have "core_shaped in_class (take k r)" using k by (rule core_at_shaped)
    then show ?thesis
      using True by (simp add: s n shaped_def)
  next
    case False
    then have c: "core_at s = Some n"
      using assms s by (simp add: embedded_at_def)
    then have cs: "core_shaped in_class (take n s)" by (rule core_at_shaped)
    then obtain x xs where t: "take n s = x # xs" and "x \<noteq> plus"
      using core_shaped_not_plus [OF cs] by (cases "take n s") auto
    then show ?thesis
      using cs by (simp add: shaped_def)
  qed
qed

lemma matchAll_embedded_shape: "m \<in> set (matchAll_embedded s) \<Longrightarrow> shaped in_class m"
proof (induction s rule: matchAll_embedded.induct)
  case 1
  then show ?case by simp
next
  case (2 c cs)
  show ?case
  proof (cases "embedded_at (c # cs)")
    case None
    then show ?thesis using 2 by simp
  next
    case (Some n)
    then show ?thesis
      using 2 embedded_at_shape [OF Some] by auto
  qed
qed

lemma trim_id: "s \<noteq> [] \<Longrightarrow> \<not> is_space (hd s) \<Longrightarrow> \<not> is_space (last s) \<Longrightarrow> trim s = s"
proof -
  assume a: "s \<noteq> []" "\<not> is_space (hd s)" "\<not> is_space (last s)"
  then have "dropWhile is_space s = s" by (cases s) auto
  moreover have "dropWhile is_space (rev s) = rev s"
    using a by (cases "rev s") (auto simp: last_rev hd_rev)
  ultimately show ?thesis by (simp add: trim_def)
qed

lemma shaped_trim: "shaped in_class m \<Longrightarrow> trim m = m"
proof -
  assume sh: "shaped in_class m"
  then obtain c r where m: "m = c # r"
    by (cases m) (auto simp: shaped_def core_shaped_def)
  have "\<not> is_space (hd m)"
    using sh m
    by (cases r) (auto simp: shaped_def core_shaped_def plus_not_space digit_not_space split: if_splits)
  moreover have "\<not> is_space (last m)"
    using sh m
    by (cases r) (auto simp: shaped_def core_shaped_def digit_not_space split: if_splits)
  ultimately show ?thesis using m by (simp add: trim_id)
qed

lemma embedded_shape: "m \<in> set (embedded input) \<Longrightarrow> shaped in_class m"
  by (auto simp: embedded_def shaped_trim dest: matchAll_embedded_shape)

lemma split_sep_units: "set (concat (split_sep piece s)) \<subseteq> set piece \<union> set s"
proof (induction piece s rule: split_sep.induct)
  case (1 piece)
  show ?case by simp
next
  case (2 piece c cs)
  show ?case
  proof (cases "sep_len (c # cs) = 0")
    case True
    then show ?thesis using 2 by auto
  next
    case False
    have "set (drop (sep_len (c # cs)) (c # cs)) \<subseteq> set (c # cs)"
      by (rule set_drop_subset)
    then show ?thesis using False 2(2) [OF False] by auto
  qed
qed

lemma set_trim: "set (trim s) \<subseteq> set s"
proof -
  have "set (dropWhile is_space (rev (dropWhile is_space s))) \<subseteq> set (rev (dropWhile is_space s))"
    by (auto dest: set_dropWhileD)
  also have "\<dots> \<subseteq> set s"
    by (auto dest: set_dropWhileD)
  finally show ?thesis by (simp add: trim_def)
qed

lemma candidates_units:
  assumes "p \<in> set (candidates input)"
  shows "nbsp \<notin> set p \<and> p \<noteq> []"
proof -
  let ?norm = "map (\<lambda>c. if c = nbsp then space else c) input"
  obtain q where q: "q \<in> set (split_sep [] ?norm)" and p: "p = trim q" and ne: "p \<noteq> []"
    using assms by (auto simp: candidates_def)
  have "set q \<subseteq> set (concat (split_sep [] ?norm))" using q by auto
  then have "set q \<subseteq> set ?norm" using split_sep_units [of "[]" ?norm] by auto
  moreover have "nbsp \<notin> set ?norm" by (auto simp: nbsp_def space_def)
  ultimately have "nbsp \<notin> set p" using set_trim [of q] p by auto
  then show ?thesis using ne by simp
qed

lemma tokenize_union:
  "tokenize input = rev (remdups (rev (candidates input)))
      @ filter (\<lambda>m. m \<notin> set (candidates input)) (rev (remdups (rev (embedded input))))"
proof -
  have "tokenize input = set_add_all (set_add_all [] (candidates input)) (embedded input)"
    by (simp add: tokenize_def array_from_set_def set_add_all_append)
  also have "\<dots> = set_add_all [] (candidates input)
      @ filter (\<lambda>m. m \<notin> set (set_add_all [] (candidates input))) (rev (remdups (rev (embedded input))))"
    by (rule set_add_all_eq)
  finally show ?thesis
    using array_from_set_eq [of "candidates input"]
    by (simp add: set_set_add_all array_from_set_def)
qed

text \<open>
  C8, as stated, fails. An embedded match may hold white space other than the ordinary
  space: a tab in the first input below, and in the second a non-breaking space, which
  the tokenizer hands on in a token of its own beside the split piece that holds an
  ordinary space in its place.
\<close>

theorem embedded_match_outside_claimed_shape:
  "embedded (js ''123456'' @ [0x09] @ js ''7890'') = [js ''123456'' @ [0x09] @ js ''7890'']
   \<and> \<not> shaped claimed_class (js ''123456'' @ [0x09] @ js ''7890'')
   \<and> tokenize (js ''123456'' @ [nbsp] @ js ''7890'')
       = [js ''123456 7890'', js ''123456'' @ [nbsp] @ js ''7890'']
   \<and> \<not> shaped claimed_class (js ''123456'' @ [nbsp] @ js ''7890'')"
  by code_simp

text \<open>
  C8, amended. Every embedded match is an optional plus, a digit, five or more characters
  that are digits, white space of the class \<open>\s\<close>, hyphens or parentheses, and a
  digit. Every split piece is non-empty and holds no non-breaking space. The tokenizer
  returns the split pieces first and then the embedded matches that are not split pieces,
  each string once, at the place of its first occurrence.
\<close>

theorem tokenizer_output:
  "(\<forall>m \<in> set (embedded input). shaped in_class m)
   \<and> (\<forall>p \<in> set (candidates input). nbsp \<notin> set p \<and> p \<noteq> [])
   \<and> tokenize input = rev (remdups (rev (candidates input)))
        @ filter (\<lambda>m. m \<notin> set (candidates input)) (rev (remdups (rev (embedded input))))
   \<and> distinct (tokenize input)
   \<and> set (tokenize input) = set (candidates input) \<union> set (embedded input)"
  using embedded_shape candidates_units tokenize_union [of input]
    distinct_array_from_set [of "candidates input @ embedded input"]
    set_array_from_set [of "candidates input @ embedded input"]
  by (simp add: tokenize_def)

theorem tokenizer_output_witness:
  "candidates (js ''Call 014-555-0134 now,+977 9812345678'')
     = [js ''Call 014-555-0134 now'', js ''+977 9812345678'']
   \<and> embedded (js ''Call 014-555-0134 now,+977 9812345678'')
     = [js ''014-555-0134'', js ''+977 9812345678'']
   \<and> tokenize (js ''Call 014-555-0134 now,+977 9812345678'')
     = [js ''Call 014-555-0134 now'', js ''+977 9812345678'', js ''014-555-0134'']
   \<and> shaped in_class (js ''014-555-0134'') \<and> shaped in_class (js ''+977 9812345678'')"
proof -
  let ?input = "js ''Call 014-555-0134 now,+977 9812345678''"
  have e1: "candidates ?input = [js ''Call 014-555-0134 now'', js ''+977 9812345678'']"
    by code_simp
  have e2: "embedded ?input = [js ''014-555-0134'', js ''+977 9812345678'']"
    by code_simp
  have e3: "tokenize ?input
     = [js ''Call 014-555-0134 now'', js ''+977 9812345678'', js ''014-555-0134'']"
    by code_simp
  show ?thesis using tokenizer_output [of ?input] e1 e2 e3 by simp
qed

section \<open>Validation of a token\<close>

text \<open>
  C9. When the authority returns no number for the cleaned token, or throws, the row of
  the token has \<open>valid = false\<close> and no canonical field. Whatever the authority
  does, the token gets a row that carries the token and its cleaned form, so the parsed
  rows are as many as the tokens and stand in their order.
\<close>

theorem validation_total:
  "(parsePhoneNumberFromString auth (cleanToken tok) region = Returned None
      \<or> parsePhoneNumberFromString auth (cleanToken tok) region = Thrown
    \<longrightarrow> parseRow auth region tok =
          \<lparr>raw = tok, cleaned = cleanToken tok, valid = False, e164 = None,
           international = None, national = None, country = None\<rparr>)
   \<and> raw (parseRow auth region tok) = tok
   \<and> cleaned (parseRow auth region tok) = cleanToken tok
   \<and> map raw (parsed auth cfg rawText) = tokenize rawText"
proof -
  have r: "raw (parseRow auth region tok) = tok \<and> cleaned (parseRow auth region tok) = cleanToken tok" for region tok
    by (simp add: parseRow_def populate_def unparsed_def Let_def split: outcome.splits option.splits bool.splits)
  have "map raw (parsed auth cfg rawText) = tokenize rawText"
    by (simp add: parsed_def comp_def r)
  then show ?thesis using r
    by (auto simp: parseRow_def unparsed_def)
qed

theorem validation_total_witness:
  "parsePhoneNumberFromString plus_authority (cleanToken (js ''n/a'')) (js ''NP'') = Returned None
   \<and> parsePhoneNumberFromString other_region_authority (cleanToken (js ''+12'')) (js ''US'') = Thrown
   \<and> parseRow plus_authority (js ''NP'') (js ''n/a'') =
       \<lparr>raw = js ''n/a'', cleaned = [], valid = False, e164 = None,
        international = None, national = None, country = None\<rparr>
   \<and> parseRow other_region_authority (js ''US'') (js ''+12'') =
       \<lparr>raw = js ''+12'', cleaned = js ''+12'', valid = False, e164 = None,
        international = None, national = None, country = None\<rparr>
   \<and> map valid (parsed plus_authority (example_config False True) (js ''n/a,+12''))
       = [False, True]"
proof -
  have c1: "cleanToken (js ''n/a'') = []" and c2: "cleanToken (js ''+12'') = js ''+12''"
    by code_simp+
  have p1: "parsePhoneNumberFromString plus_authority (cleanToken (js ''n/a'')) (js ''NP'') = Returned None"
    unfolding c1 by (simp add: plus_authority_def)
  have p2: "parsePhoneNumberFromString other_region_authority (cleanToken (js ''+12'')) (js ''US'') = Thrown"
    by (simp add: other_region_authority_def js_def)
  have e: "map valid (parsed plus_authority (example_config False True) (js ''n/a,+12'')) = [False, True]"
    by code_simp
  show ?thesis
    using validation_total [of plus_authority "js ''n/a''" "js ''NP''"]
      validation_total [of other_region_authority "js ''+12''" "js ''US''"] p1 p2 c1 c2 e
    by simp
qed

text \<open>
  C7, as stated, fails. A number that passes the check for the region and fails the
  general check gives a row with \<open>valid = true\<close> and no canonical field; a valid
  number for which the authority resolves no country gives a row without a country.
\<close>

theorem valid_without_fields:
  "valid (parseRow region_only_authority (js ''NP'') (js ''123''))
   \<and> e164 (parseRow region_only_authority (js ''NP'') (js ''123'')) = None
   \<and> international (parseRow region_only_authority (js ''NP'') (js ''123'')) = None
   \<and> national (parseRow region_only_authority (js ''NP'') (js ''123'')) = None
   \<and> country (parseRow region_only_authority (js ''NP'') (js ''123'')) = None
   \<and> valid (parseRow stateless_authority (js ''NP'') (js ''123''))
   \<and> country (parseRow stateless_authority (js ''NP'') (js ''123'')) = None"
  by (simp add: parseRow_def populate_def unparsed_def region_only_authority_def
      stateless_authority_def plus_phone_def)

text \<open>
  C7, amended. Let the authority parse the cleaned token, and let its region check and
  its two formatters return. If the general check returns true, the row has
  \<open>valid = true\<close>, the three canonical forms of the authority, and the country the
  authority resolved, if any. If the general check returns false, the row has no
  canonical field, and \<open>valid\<close> is the result of the region check.
\<close>

theorem canonical_fields_follow_general_check:
  assumes "parsePhoneNumberFromString auth (cleanToken tok) region = Returned (Some ph)"
    and "isValidNumberForRegion auth (ph_number ph) region = Returned inRegion"
    and "ph_formatInternational ph = Returned i"
    and "ph_formatNational ph = Returned n"
  shows "(ph_isValid ph = Returned True \<longrightarrow>
            parseRow auth region tok =
              \<lparr>raw = tok, cleaned = cleanToken tok, valid = True, e164 = Some (ph_number ph),
               international = Some i, national = Some n, country = ph_country ph\<rparr>)
    \<and> (ph_isValid ph = Returned False \<longrightarrow>
            parseRow auth region tok =
              \<lparr>raw = tok, cleaned = cleanToken tok, valid = inRegion, e164 = None,
               international = None, national = None, country = None\<rparr>)"
  using assms by (simp add: parseRow_def populate_def unparsed_def)

theorem canonical_fields_follow_general_check_witness:
  "parseRow plus_authority (js ''NP'') (js ''+977 98'') =
     \<lparr>raw = js ''+977 98'', cleaned = js ''+97798'', valid = True, e164 = Some (js ''+97798''),
      international = Some (js ''+97798''), national = Some (js ''97798''),
      country = Some (CountryCode LN LP)\<rparr>
   \<and> parseRow region_only_authority (js ''NP'') (js ''123'') =
     \<lparr>raw = js ''123'', cleaned = js ''123'', valid = True, e164 = None,
      international = None, national = None, country = None\<rparr>"
proof -
  have c: "cleanToken (js ''+977 98'') = js ''+97798''" and c': "cleanToken (js ''123'') = js ''123''"
    by code_simp+
  have p: "parsePhoneNumberFromString plus_authority (cleanToken (js ''+977 98'')) (js ''NP'')
      = Returned (Some (plus_phone (js ''+97798'')))"
    unfolding c by (simp add: plus_authority_def js_def plus_def)
  have r: "isValidNumberForRegion plus_authority (ph_number (plus_phone (js ''+97798''))) (js ''NP'')
      = Returned False"
    by (simp add: plus_authority_def)
  have t: "tl (js ''+97798'') = js ''97798''" by (simp add: js_def)
  have p': "parsePhoneNumberFromString region_only_authority (cleanToken (js ''123'')) (js ''NP'')
      = Returned (Some ((plus_phone (js ''123''))\<lparr>ph_isValid := Returned False\<rparr>))"
    unfolding c' by (simp add: region_only_authority_def)
  have r': "isValidNumberForRegion region_only_authority
      (ph_number ((plus_phone (js ''123''))\<lparr>ph_isValid := Returned False\<rparr>)) (js ''NP'')
      = Returned True"
    by (simp add: region_only_authority_def)
  show ?thesis
    using canonical_fields_follow_general_check [OF p r, of "js ''+97798''" "js ''97798''"]
      canonical_fields_follow_general_check [OF p' r', of "js ''123''" "tl (js ''123'')"] c c' t
    by (simp add: plus_phone_def)
qed

section \<open>Deduplication\<close>

lemma dedup_loop_acc: "dedup_loop seen acc rs = acc @ dedup_loop seen [] rs"
proof (induction rs arbitrary: seen acc)
  case Nil
  show ?case by simp
next
  case (Cons r rs)
  show ?case
    using Cons.IH [of "seen @ [dedupKey r]" "acc @ [r]"] Cons.IH [of "seen @ [dedupKey r]" "[r]"]
      Cons.IH [of seen acc]
    by simp
qed

lemma dedup_loop_Cons:
  "dedup_loop seen [] (r # rs) =
     (if dedupKey r \<in> set seen then dedup_loop seen [] rs
      else r # dedup_loop (seen @ [dedupKey r]) [] rs)"
  using dedup_loop_acc [of "seen @ [dedupKey r]" "[r]" rs] by simp

lemma dedup_loop_keys:
  "dedupKey ` set (dedup_loop seen [] rs) = dedupKey ` set rs - set seen"
proof (induction rs arbitrary: seen)
  case Nil
  show ?case by simp
next
  case (Cons r rs)
  show ?case
    using Cons.IH [of seen] Cons.IH [of "seen @ [dedupKey r]"]
    by (auto simp: dedup_loop_Cons simp del: dedup_loop.simps)
qed

lemma dedup_loop_distinct: "distinct (map dedupKey (dedup_loop seen [] rs))"
proof (induction rs arbitrary: seen)
  case Nil
  show ?case by simp
next
  case (Cons r rs)
  have "dedupKey r \<notin> dedupKey ` set (dedup_loop (seen @ [dedupKey r]) [] rs)"
    by (simp add: dedup_loop_keys)
  then show ?case
    using Cons.IH [of seen] Cons.IH [of "seen @ [dedupKey r]"]
    by (simp add: dedup_loop_Cons del: dedup_loop.simps)
qed

lemma dedup_loop_subseq: "subseq (dedup_loop seen [] rs) rs"
proof (induction rs arbitrary: seen)
  case Nil
  show ?case by simp
next
  case (Cons r rs)
  show ?case
    using Cons.IH [of seen] Cons.IH [of "seen @ [dedupKey r]"]
    by (auto simp: dedup_loop_Cons simp del: dedup_loop.simps)
qed

lemma dedup_loop_first:
  "r \<in> set (dedup_loop seen [] rs) \<Longrightarrow> find (\<lambda>x. dedupKey x = dedupKey r) rs = Some r"
proof (induction rs arbitrary: seen)
  case Nil
  then show ?case by simp
next
  case (Cons r0 rs)
  show ?case
  proof (cases "dedupKey r0 \<in> set seen")
    case True
    with Cons.prems have mem: "r \<in> set (dedup_loop seen [] rs)"
      by (simp add: dedup_loop_Cons del: dedup_loop.simps)
    then have "dedupKey r \<in> dedupKey ` set rs - set seen"
      using dedup_loop_keys [of seen rs] by blast
    with True have "dedupKey r0 \<noteq> dedupKey r" by auto
    then show ?thesis using Cons.IH [OF mem] by simp
  next
    case False
    with Cons.prems have "r = r0 \<or> r \<in> set (dedup_loop (seen @ [dedupKey r0]) [] rs)"
      by (simp add: dedup_loop_Cons del: dedup_loop.simps)
    then show ?thesis
    proof
      assume "r = r0"
      then show ?thesis by simp
    next
      assume mem: "r \<in> set (dedup_loop (seen @ [dedupKey r0]) [] rs)"
      then have "dedupKey r \<in> dedupKey ` set rs - set (seen @ [dedupKey r0])"
        using dedup_loop_keys [of "seen @ [dedupKey r0]" rs] by blast
      then have "dedupKey r0 \<noteq> dedupKey r" by auto
      then show ?thesis using Cons.IH [OF mem] by simp
    qed
  qed
qed

lemma deduplicate_distinct: "distinct (map dedupKey (deduplicate fs))"
  by (simp add: deduplicate_def dedup_loop_distinct)

lemma deduplicate_keys: "dedupKey ` set (deduplicate fs) = dedupKey ` set fs"
  by (simp add: deduplicate_def dedup_loop_keys)

lemma deduplicate_subseq: "subseq (deduplicate fs) fs"
  by (simp add: deduplicate_def dedup_loop_subseq)

lemma deduplicate_first:
  "r \<in> set (deduplicate fs) \<Longrightarrow> find (\<lambda>x. dedupKey x = dedupKey r) fs = Some r"
  unfolding deduplicate_def by (rule dedup_loop_first)

lemma rows_mset:
  "rearranges srt (compareRows (sortAsc cfg)) \<Longrightarrow>
   mset (rows srt auth cfg rawText) = mset (deduplicate (filtered auth cfg rawText))"
  by (simp add: rows_def rearranges_def)

lemma distinct_map_mset:
  "mset xs = mset ys \<Longrightarrow> distinct (map f ys) \<Longrightarrow> distinct (map f xs)"
  by (metis distinct_map mset_eq_setD mset_eq_imp_distinct_iff)

section \<open>The engines are comparison sorts\<close>

lemma mset_insert_by: "mset (insert_by cmp x ys) = add_mset x (mset ys)"
  by (induction ys) auto

lemma mset_insertion_fold:
  "mset (foldl (\<lambda>acc x. insert_by cmp x acc) acc xs) = mset acc + mset xs"
  by (induction xs arbitrary: acc) (auto simp: mset_insert_by)

lemma insertion_sort_rearranges: "rearranges insertion_sort cmp"
  by (simp add: rearranges_def insertion_sort_def mset_insertion_fold)















lemma comparison_sort_rearranges: "comparison_sort srt \<Longrightarrow> rearranges srt cmp"
  by (simp add: comparison_sort_def rearranges_def)

section \<open>The comparison function\<close>




lemma dedupKey_fields:
  "dedupKey = (\<lambda>r. case e164 r of None \<Rightarrow> cleaned r | Some s \<Rightarrow> if s = [] then cleaned r else s)"
  by (auto simp: dedupKey_def fun_eq_iff split: option.splits)



section \<open>The flat sequence\<close>

text \<open>
  C2. The deduplication key of a row is its \<open>e164\<close> when that is defined and not empty,
  and its \<open>cleaned\<close> otherwise. With an engine whose sort rearranges the array, no two
  rows of the flat sequence have the same key, and the keys of the flat sequence are the
  keys of the filtered rows. The row kept for a key is the first filtered row with this
  key. The flat sequence holds the rows of the deduplicated array, which is a subsequence
  of the filtered rows: the first occurrences stand in their order before the sort. In
  the example two tokens differ in their cleaned form and agree in their E.164 form, and
  two unparseable tokens agree in their cleaned form.
\<close>

theorem rows_deduplicated:
  fixes key :: "ParsedRow \<Rightarrow> jsstring"
  defines "key \<equiv> (\<lambda>r. case e164 r of None \<Rightarrow> cleaned r | Some s \<Rightarrow> if s = [] then cleaned r else s)"
  assumes "rearranges srt (compareRows (sortAsc cfg))"
  shows "distinct (map key (rows srt auth cfg rawText))
    \<and> key ` set (rows srt auth cfg rawText) = key ` set (filtered auth cfg rawText)
    \<and> (\<forall>r \<in> set (rows srt auth cfg rawText).
          find (\<lambda>x. key x = key r) (filtered auth cfg rawText) = Some r)
    \<and> mset (rows srt auth cfg rawText) = mset (deduplicate (filtered auth cfg rawText))
    \<and> subseq (deduplicate (filtered auth cfg rawText)) (filtered auth cfg rawText)"
proof -
  let ?out = "rows srt auth cfg rawText" and ?fs = "filtered auth cfg rawText"
  have k: "key = dedupKey" by (simp add: key_def dedupKey_fields)
  have m: "mset ?out = mset (deduplicate ?fs)"
    using assms(2) by (rule rows_mset)
  then have s: "set ?out = set (deduplicate ?fs)"
    by (rule mset_eq_setD)
  have "distinct (map dedupKey ?out)"
    using m deduplicate_distinct by (rule distinct_map_mset)
  moreover have "dedupKey ` set ?out = dedupKey ` set ?fs"
    by (simp add: s deduplicate_keys)
  moreover have "\<forall>r \<in> set ?out. find (\<lambda>x. dedupKey x = dedupKey r) ?fs = Some r"
    by (simp add: s deduplicate_first)
  ultimately show ?thesis using m deduplicate_subseq unfolding k by blast
qed


theorem rows_deduplicated_witness:
  "rearranges insertion_sort (compareRows (sortAsc (example_config False True)))
   \<and> map raw (filtered regional_authority (example_config False True) (js ''+977 98, 98, 07, 0-7''))
       = [js ''+977 98'', js ''98'', js ''07'', js ''0-7'']
   \<and> map e164 (filtered regional_authority (example_config False True) (js ''+977 98, 98, 07, 0-7''))
       = [Some (js ''+97798''), Some (js ''+97798''), None, None]
   \<and> map cleaned (filtered regional_authority (example_config False True) (js ''+977 98, 98, 07, 0-7''))
       = [js ''+97798'', js ''98'', js ''07'', js ''07'']
   \<and> map raw (rows insertion_sort regional_authority (example_config False True)
         (js ''+977 98, 98, 07, 0-7'')) = [js ''07'', js ''+977 98'']
   \<and> distinct (map (\<lambda>r. case e164 r of None \<Rightarrow> cleaned r
                          | Some s \<Rightarrow> if s = [] then cleaned r else s)
        (rows insertion_sort regional_authority (example_config False True)
          (js ''+977 98, 98, 07, 0-7'')))"
proof -
  let ?cfg = "example_config False True" and ?txt = "js ''+977 98, 98, 07, 0-7''"
  have h: "rearranges insertion_sort (compareRows (sortAsc ?cfg))"
    by (rule insertion_sort_rearranges)
  have e1: "map raw (filtered regional_authority ?cfg ?txt)
      = [js ''+977 98'', js ''98'', js ''07'', js ''0-7'']"
    by code_simp
  have e2: "map e164 (filtered regional_authority ?cfg ?txt)
      = [Some (js ''+97798''), Some (js ''+97798''), None, None]"
    by code_simp
  have e3: "map cleaned (filtered regional_authority ?cfg ?txt)
      = [js ''+97798'', js ''98'', js ''07'', js ''07'']"
    by code_simp
  have e4: "map raw (rows insertion_sort regional_authority ?cfg ?txt) = [js ''07'', js ''+977 98'']"
    by code_simp
  show ?thesis
    using rows_deduplicated [OF h, of regional_authority ?txt] h e1 e2 e3 e4 by blast
qed

text \<open>
  C3. With \<open>onlyValid\<close> set and an engine whose sort rearranges the array, every row
  of the flat sequence has \<open>valid = true\<close> and an \<open>e164\<close> that is not empty.
\<close>

theorem rows_only_valid:
  assumes "onlyValid cfg" and "rearranges srt (compareRows (sortAsc cfg))"
  shows "\<forall>r \<in> set (rows srt auth cfg rawText). valid r \<and> (\<exists>s. e164 r = Some s \<and> s \<noteq> [])"
proof
  fix r
  assume "r \<in> set (rows srt auth cfg rawText)"
  then have "r \<in> set (deduplicate (filtered auth cfg rawText))"
    using rows_mset [OF assms(2)] mset_eq_setD by blast
  then have "r \<in> set (filtered auth cfg rawText)"
    using deduplicate_subseq [of "filtered auth cfg rawText"] by (auto elim: list_emb_set)
  then have "valid r \<and> truthy (e164 r)"
    using assms(1) by (simp add: filtered_def)
  then show "valid r \<and> (\<exists>s. e164 r = Some s \<and> s \<noteq> [])"
    by (auto simp: truthy_def split: option.splits)
qed

theorem rows_only_valid_witness:
  "onlyValid (example_config True True)
   \<and> rearranges insertion_sort (compareRows (sortAsc (example_config True True)))
   \<and> map raw (parsed plus_authority (example_config True True) (js ''+2,12,+1''))
       = [js ''+2'', js ''12'', js ''+1'']
   \<and> map e164 (rows insertion_sort plus_authority (example_config True True) (js ''+2,12,+1''))
       = [Some (js ''+1''), Some (js ''+2'')]
   \<and> list_all valid (rows insertion_sort plus_authority (example_config True True) (js ''+2,12,+1''))"
proof -
  let ?cfg = "example_config True True"
  have h1: "onlyValid ?cfg" by (simp add: example_config_def)
  have h2: "rearranges insertion_sort (compareRows (sortAsc ?cfg))"
    by (rule insertion_sort_rearranges)
  have e1: "map raw (parsed plus_authority ?cfg (js ''+2,12,+1'')) = [js ''+2'', js ''12'', js ''+1'']"
    by code_simp
  have e2: "map e164 (rows insertion_sort plus_authority ?cfg (js ''+2,12,+1''))
       = [Some (js ''+1''), Some (js ''+2'')]"
    by code_simp
  have "list_all valid (rows insertion_sort plus_authority ?cfg (js ''+2,12,+1''))"
    using rows_only_valid [OF h1 h2, of plus_authority "js ''+2,12,+1''"]
    by (simp add: list_all_iff)
  then show ?thesis using h1 h2 e1 e2 by blast
qed

text \<open>
  C10. The comparison function returns \<open>-1\<close> or \<open>1\<close> and never \<open>0\<close>. For two
  rows with the same digit-only key it returns the same value in both argument orders.
  The example is a run without the filter: the token \<open>+12\<close> is keyed by its E.164
  form and the token \<open>12\<close> by its cleaned form, the two keys differ and their digits
  agree; either order of the two rows is one that an engine may return.
\<close>

theorem comparator_never_zero:
  "(compareRows asc a b = - 1 \<or> compareRows asc a b = 1)
   \<and> compareRows asc a b \<noteq> 0
   \<and> (digitKey a = digitKey b \<longrightarrow> compareRows asc a b = compareRows asc b a)"
  by (simp add: compareRows_def)

theorem comparator_never_zero_witness:
  "deduplicate (filtered plus_authority (example_config False True) (js ''+12,12''))
     = [parseRow plus_authority (js ''NP'') (js ''+12''), parseRow plus_authority (js ''NP'') (js ''12'')]
   \<and> dedupKey (parseRow plus_authority (js ''NP'') (js ''+12'')) = js ''+12''
   \<and> dedupKey (parseRow plus_authority (js ''NP'') (js ''12'')) = js ''12''
   \<and> digitKey (parseRow plus_authority (js ''NP'') (js ''+12''))
       = digitKey (parseRow plus_authority (js ''NP'') (js ''12''))
   \<and> compareRows True (parseRow plus_authority (js ''NP'') (js ''+12''))
        (parseRow plus_authority (js ''NP'') (js ''12'')) = 1
   \<and> compareRows True (parseRow plus_authority (js ''NP'') (js ''12''))
        (parseRow plus_authority (js ''NP'') (js ''+12'')) = 1
   \<and> honours (compareRows True)
        [parseRow plus_authority (js ''NP'') (js ''+12''), parseRow plus_authority (js ''NP'') (js ''12'')]
   \<and> honours (compareRows True)
        [parseRow plus_authority (js ''NP'') (js ''12''), parseRow plus_authority (js ''NP'') (js ''+12'')]"
proof -
  let ?a = "parseRow plus_authority (js ''NP'') (js ''+12'')"
  let ?b = "parseRow plus_authority (js ''NP'') (js ''12'')"
  have e1: "deduplicate (filtered plus_authority (example_config False True) (js ''+12,12'')) = [?a, ?b]"
    by code_simp
  have e2: "dedupKey ?a = js ''+12''" and e3: "dedupKey ?b = js ''12''"
    by code_simp+
  have e4: "digitKey ?a = digitKey ?b" by code_simp
  have e5: "compareRows True ?a ?b = 1" by code_simp
  have e6: "compareRows True ?b ?a = 1"
    using comparator_never_zero [of True ?a ?b] e4 e5 by simp
  have e7: "honours (compareRows True) [?a, ?b]" and e8: "honours (compareRows True) [?b, ?a]"
    using e5 e6 by (simp_all add: honours_def)
  show ?thesis
    using e1 e2 e3 e4 e5 e6 e7 e8 by blast
qed




section \<open>The grouped view\<close>

lemma map_of_groups:
  "map_of (map (\<lambda>k. (k, f k)) ks) c = None \<longleftrightarrow> c \<notin> set ks"
  by (induction ks) auto

lemma group_push_step: "group_push (groups_of pre) r = groups_of (pre @ [r])"
proof (cases "groupKey r \<in> set (map groupKey pre)")
  case True
  then have "map_of (groups_of pre) (groupKey r) \<noteq> None"
    by (simp add: groups_of_def map_of_groups set_array_from_set)
  then show ?thesis using True
    by (auto simp: group_push_def groups_of_def array_from_set_snoc Let_def)
next
  case False
  then have none: "map_of (groups_of pre) (groupKey r) = None"
    by (simp add: groups_of_def map_of_groups set_array_from_set)
  have "\<forall>x \<in> set pre. groupKey x \<noteq> groupKey r"
    using False by (metis image_eqI list.set_map)
  then have empty: "filter (\<lambda>x. groupKey x = groupKey r) pre = []"
    by (simp add: filter_empty_conv)
  show ?thesis using False none empty
    by (auto simp: group_push_def groups_of_def array_from_set_snoc set_array_from_set Let_def)
qed

lemma foldl_group_push: "foldl group_push (groups_of pre) rs = groups_of (pre @ rs)"
proof (induction rs arbitrary: pre)
  case Nil
  show ?case by simp
next
  case (Cons r rs)
  show ?case using Cons.IH [of "pre @ [r]"] by (simp add: group_push_step)
qed

lemma grouped_eq: "grouped rs = groups_of rs"
  using foldl_group_push [of "[]" rs] by (simp add: grouped_def groups_of_def array_from_set_def)

lemma mset_concat_groups:
  "distinct ks \<Longrightarrow>
   mset (concat (map (\<lambda>k. filter (\<lambda>r. f r = k) rs) ks)) = mset (filter (\<lambda>r. f r \<in> set ks) rs)"
proof (induction ks)
  case Nil
  show ?case by simp
next
  case (Cons k ks)
  then have "k \<notin> set ks" by simp
  then have "filter_mset (\<lambda>r. f r = k) (mset rs) + filter_mset (\<lambda>r. f r \<in> set ks) (mset rs)
      = filter_mset (\<lambda>r. f r \<in> set (k # ks)) (mset rs)"
    by (induction rs) auto
  then show ?case using Cons by simp
qed

lemma letter_unit_inj: "letter_unit a = letter_unit b \<Longrightarrow> a = b"
  by (cases a; cases b; simp)

lemma code_string_inj: "code_string c = code_string d \<Longrightarrow> c = d"
  by (cases c; cases d) (auto dest: letter_unit_inj)

lemma group_label_inj: "group_label c = group_label d \<longleftrightarrow> c = d"
proof
  assume eq: "group_label c = group_label d"
  have len: "length (code_string cc) = 2" for cc by (cases cc) simp
  have u: "length (js ''Unknown'') = 7" by (simp add: js_def)
  show "c = d"
  proof (cases c)
    case None
    then show ?thesis using eq len u by (cases d) (auto simp: group_label_def dest: arg_cong [where f = length])
  next
    case (Some cc)
    then show ?thesis using eq len u
      by (cases d) (auto simp: group_label_def dest: code_string_inj arg_cong [where f = length])
  qed
qed simp

lemma groupKey_label: "groupKey r = group_label (country r)"
  by (simp add: groupKey_def group_label_def)

lemma remdups_map_inj: "inj f \<Longrightarrow> remdups (map f xs) = map f (remdups xs)"
  by (induction xs) (auto simp: inj_def)

lemma first_occurrences_map_inj:
  "inj f \<Longrightarrow> rev (remdups (rev (map f xs))) = map f (rev (remdups (rev xs)))"
  by (simp add: rev_map remdups_map_inj)

text \<open>
  C5. The grouped view of a sequence of rows has one group for each country that occurs
  in the sequence, and one for the rows without a country, in the order in which they
  first occur. The key of a group is the two-letter code of its country, or \<open>Unknown\<close>;
  its rows are exactly the rows of the sequence with this country, in their order in the
  sequence. No two groups have the same key, and the groups together hold the rows of
  the sequence, each as often as the sequence does. In particular this holds of the flat
  sequence.
\<close>

theorem grouped_view:
  "grouped rs =
     map (\<lambda>c. (case c of None \<Rightarrow> js ''Unknown'' | Some cc \<Rightarrow> code_string cc,
               filter (\<lambda>r. country r = c) rs))
       (rev (remdups (rev (map country rs))))
   \<and> distinct (map fst (grouped rs))
   \<and> mset (concat (map snd (grouped rs))) = mset rs"
proof -
  have inj: "inj group_label" by (simp add: inj_def group_label_inj)
  have keys: "map groupKey rs = map group_label (map country rs)"
    by (simp add: groupKey_label)
  have "grouped rs = map (\<lambda>k. (k, filter (\<lambda>r. groupKey r = k) rs)) (array_from_set (map groupKey rs))"
    by (simp add: grouped_eq groups_of_def)
  also have "array_from_set (map groupKey rs) = map group_label (rev (remdups (rev (map country rs))))"
    unfolding keys array_from_set_eq using inj by (rule first_occurrences_map_inj)
  finally have eq: "grouped rs = map (\<lambda>c. (group_label c, filter (\<lambda>r. country r = c) rs))
      (rev (remdups (rev (map country rs))))"
    by (simp add: comp_def groupKey_label group_label_inj)
  have "inj_on group_label (set (rev (remdups (rev (map country rs)))))"
    using inj by (rule inj_on_subset) simp
  then have d: "distinct (map fst (grouped rs))"
    by (simp add: eq comp_def distinct_map)
  have "map snd (grouped rs) = map (\<lambda>k. filter (\<lambda>r. groupKey r = k) rs) (array_from_set (map groupKey rs))"
    by (simp add: grouped_eq groups_of_def comp_def)
  then have "mset (concat (map snd (grouped rs))) =
      mset (filter (\<lambda>r. groupKey r \<in> set (array_from_set (map groupKey rs))) rs)"
    by (simp add: mset_concat_groups distinct_array_from_set)
  also have "\<dots> = mset rs"
    by (simp add: set_array_from_set)
  finally show ?thesis using eq d by (simp add: group_label_def [abs_def])
qed

theorem grouped_view_witness:
  "map country (rows insertion_sort regional_authority (example_config False True)
      (js ''+15,98,07,+16,+2''))
     = [None, Some (CountryCode LU LS), Some (CountryCode LU LS), Some (CountryCode LN LP),
        Some (CountryCode LN LP)]
   \<and> map fst (grouped (rows insertion_sort regional_authority (example_config False True)
        (js ''+15,98,07,+16,+2''))) = [js ''Unknown'', js ''US'', js ''NP'']
   \<and> map (map raw \<circ> snd) (grouped (rows insertion_sort regional_authority
        (example_config False True) (js ''+15,98,07,+16,+2'')))
     = [[js ''07''], [js ''+15'', js ''+16''], [js ''+2'', js ''98'']]
   \<and> mset (concat (map snd (grouped (rows insertion_sort regional_authority
        (example_config False True) (js ''+15,98,07,+16,+2'')))))
     = mset (rows insertion_sort regional_authority (example_config False True)
        (js ''+15,98,07,+16,+2''))"
proof -
  let ?rs = "rows insertion_sort regional_authority (example_config False True)
    (js ''+15,98,07,+16,+2'')"
  have e0: "map country ?rs = [None, Some (CountryCode LU LS), Some (CountryCode LU LS),
      Some (CountryCode LN LP), Some (CountryCode LN LP)]"
    by code_simp
  have e1: "map fst (grouped ?rs) = [js ''Unknown'', js ''US'', js ''NP'']"
    by code_simp
  have e2: "map (map raw \<circ> snd) (grouped ?rs)
      = [[js ''07''], [js ''+15'', js ''+16''], [js ''+2'', js ''98'']]"
    by code_simp
  show ?thesis using grouped_view [of ?rs] e0 e1 e2 by blast
qed

section \<open>Determinism\<close>




end
